theory Spec2Isabelle
  imports Complex_Main "HOL-Library.Log_Nat" "HOL-Library.Word"
begin

section \<open>Python numbers\<close>

text \<open>
  The script \<^verbatim>\<open>generate-pwa-icons.py\<close> computes its geometry with Python floats
  (IEEE 754 binary64, round to nearest, ties to even) and truncates with \<^verbatim>\<open>int()\<close>.
  A float is modelled by the rational it denotes; \<open>fl\<close> rounds a rational to the nearest
  number with a 53 bit significand.  Exponent limits (overflow, subnormal numbers) are not
  modelled: they are far outside every magnitude the script computes.
\<close>

type_synonym pyfloat = rat

definition rne :: "rat \<Rightarrow> int" where
  "rne q = (let f = \<lfloor>q\<rfloor>; r = q - of_int f
            in if r < 1 / 2 then f
               else if 1 / 2 < r then f + 1
               else if even f then f else f + 1)"

definition flog2 :: "rat \<Rightarrow> int" where
  "flog2 x = (if 1 \<le> x then bitlen \<lfloor>x\<rfloor> - 1 else - bitlen (\<lceil>1 / x\<rceil> - 1))"

definition fl :: "rat \<Rightarrow> pyfloat" where
  "fl x = (if x = 0 then 0
           else let e = flog2 \<bar>x\<bar> - 52 in of_int (rne (x / 2 powi e)) * 2 powi e)"

text \<open>A decimal literal such as \<^verbatim>\<open>0.15\<close> denotes the float nearest to it.\<close>

definition float_lit :: "rat \<Rightarrow> pyfloat" where
  "float_lit d = fl d"

definition float_of_int :: "int \<Rightarrow> pyfloat" where
  "float_of_int n = fl (of_int n)"

text \<open>\<^verbatim>\<open>n * x\<close> and \<^verbatim>\<open>n + x\<close> for an int \<open>n\<close> and a float \<open>x\<close>; \<^verbatim>\<open>int(x)\<close>; \<^verbatim>\<open>a // b\<close>.\<close>

definition int_mul_float :: "int \<Rightarrow> pyfloat \<Rightarrow> pyfloat" where
  "int_mul_float n x = fl (float_of_int n * x)"

definition int_add_float :: "int \<Rightarrow> pyfloat \<Rightarrow> pyfloat" where
  "int_add_float n x = fl (float_of_int n + x)"

definition py_int :: "pyfloat \<Rightarrow> int" where
  "py_int x = (if 0 \<le> x then \<lfloor>x\<rfloor> else \<lceil>x\<rceil>)"

definition floordiv :: "int \<Rightarrow> int \<Rightarrow> int" where
  "floordiv a b = a div b"

definition py_range :: "int \<Rightarrow> int list" where
  "py_range n = [0..n - 1]"

text \<open>\<^verbatim>\<open>str(n)\<close> for an int, as the f-strings of the script format it.\<close>

definition digit_char :: "nat \<Rightarrow> char" where
  "digit_char d = char_of (48 + d)"

function digits :: "nat \<Rightarrow> string" where
  "digits n = (if n < 10 then [digit_char n] else digits (n div 10) @ [digit_char (n mod 10)])"
  by pat_completeness auto
termination
  by (relation "measure id") auto

definition str_int :: "int \<Rightarrow> string" where
  "str_int n = (if n < 0 then CHR ''-'' # digits (nat (- n)) else digits (nat n))"

section \<open>Exceptions\<close>

datatype exn = ValueError string | ZeroDivisionError string | OSError string

fun exn_str :: "exn \<Rightarrow> string" where
  "exn_str (ValueError m) = m"
| "exn_str (ZeroDivisionError m) = m"
| "exn_str (OSError m) = m"

type_synonym 'a result = "exn + 'a"

definition and_then :: "'a result \<Rightarrow> ('a \<Rightarrow> 'b result) \<Rightarrow> 'b result" where
  "and_then m f = (case m of Inl e \<Rightarrow> Inl e | Inr v \<Rightarrow> f v)"

text \<open>\<^verbatim>\<open>a / b\<close> on ints is the correctly rounded quotient.\<close>

definition int_truediv :: "int \<Rightarrow> int \<Rightarrow> pyfloat result" where
  "int_truediv a b = (if b = 0 then Inl (ZeroDivisionError ''division by zero'')
                      else Inr (fl (of_int a / of_int b)))"

section \<open>The imaging library\<close>

text \<open>
  The script draws with Pillow (\<^verbatim>\<open>PIL.Image\<close>, \<^verbatim>\<open>PIL.ImageDraw\<close>), which is not part of
  the repository.  An image is its size and its pixels; every drawing call paints the
  pixels of a shape that lie inside the image.  Shapes are modelled geometrically: a
  rectangle covers its box with both corner points included, an ellipse covers the pixels
  of its box whose centres lie in the inscribed ellipse, and a rounded rectangle is put
  together from corner arcs and rectangles the way \<^verbatim>\<open>ImageDraw.rounded_rectangle\<close> does it.
\<close>

type_synonym rgb = "int \<times> int \<times> int"
type_synonym point = "int \<times> int"
type_synonym box = "point \<times> point"

record 'p image =
  width :: int
  height :: int
  pixels :: "point \<Rightarrow> 'p"

definition Image_new :: "int \<Rightarrow> int \<Rightarrow> 'p \<Rightarrow> 'p image result" where
  "Image_new w h c =
     (if w < 0 \<or> h < 0 then Inl (ValueError ''Width and height must be >= 0'')
      else Inr \<lparr>width = w, height = h, pixels = (\<lambda>_. c)\<rparr>)"

definition in_image :: "'p image \<Rightarrow> point \<Rightarrow> bool" where
  "in_image img p = (0 \<le> fst p \<and> fst p < width img \<and> 0 \<le> snd p \<and> snd p < height img)"

definition paint :: "'p image \<Rightarrow> (point \<Rightarrow> bool) \<Rightarrow> 'p \<Rightarrow> 'p image" where
  "paint img cov c = img\<lparr>pixels := (\<lambda>p. if in_image img p \<and> cov p then c else pixels img p)\<rparr>"

text \<open>Only horizontal segments are drawn by the script, and only those are modelled.\<close>

definition line_cov :: "point \<Rightarrow> point \<Rightarrow> point \<Rightarrow> bool" where
  "line_cov a b p = (snd a = snd b \<and> snd p = snd a \<and>
                     min (fst a) (fst b) \<le> fst p \<and> fst p \<le> max (fst a) (fst b))"

definition draw_line :: "'p image \<Rightarrow> point \<Rightarrow> point \<Rightarrow> 'p \<Rightarrow> 'p image" where
  "draw_line img a b c = paint img (line_cov a b) c"

fun rect_cov :: "box \<Rightarrow> point \<Rightarrow> bool" where
  "rect_cov ((x0, y0), (x1, y1)) (x, y) = (x0 \<le> x \<and> x \<le> x1 \<and> y0 \<le> y \<and> y \<le> y1)"

fun ellipse_cov :: "box \<Rightarrow> point \<Rightarrow> bool" where
  "ellipse_cov ((x0, y0), (x1, y1)) (x, y) =
     (x0 \<le> x \<and> x \<le> x1 \<and> y0 \<le> y \<and> y \<le> y1 \<and>
      ((2 * x - (x0 + x1)) * (y1 - y0)) ^ 2 + ((2 * y - (y0 + y1)) * (x1 - x0)) ^ 2
        \<le> ((x1 - x0) * (y1 - y0)) ^ 2)"

fun rounded_rect_cov :: "box \<Rightarrow> int \<Rightarrow> point \<Rightarrow> bool" where
  "rounded_rect_cov ((x0, y0), (x1, y1)) radius (x, y) =
     (let d0 = radius * 2;
          full_x = (x1 - x0 - 1 \<le> d0);
          d1 = (if full_x then x1 - x0 else d0);
          full_y = (y1 - y0 - 1 \<le> d1);
          d = (if full_y then y1 - y0 else d1);
          r = d div 2
      in if full_x \<and> full_y then ellipse_cov ((x0, y0), (x1, y1)) (x, y)
         else if d = 0 then rect_cov ((x0, y0), (x1, y1)) (x, y)
         else if full_x then
           (ellipse_cov ((x0, y0), (x0 + d, y0 + d)) (x, y) \<and> 2 * y \<le> 2 * y0 + d) \<or>
           (ellipse_cov ((x0, y1 - d), (x0 + d, y1)) (x, y) \<and> 2 * y1 - d \<le> 2 * y) \<or>
           rect_cov ((x0, y0 + r + 1), (x1, y1 - r - 1)) (x, y)
         else if full_y then
           (ellipse_cov ((x0, y0), (x0 + d, y0 + d)) (x, y) \<and> 2 * x \<le> 2 * x0 + d) \<or>
           (ellipse_cov ((x1 - d, y0), (x1, y0 + d)) (x, y) \<and> 2 * x1 - d \<le> 2 * x) \<or>
           rect_cov ((x0 + r + 1, y0), (x1 - r - 1, y1)) (x, y)
         else
           (ellipse_cov ((x0, y0), (x0 + d, y0 + d)) (x, y) \<and> x \<le> x0 + r \<and> y \<le> y0 + r) \<or>
           (ellipse_cov ((x1 - d, y0), (x1, y0 + d)) (x, y) \<and> x1 - r \<le> x \<and> y \<le> y0 + r) \<or>
           (ellipse_cov ((x1 - d, y1 - d), (x1, y1)) (x, y) \<and> x1 - r \<le> x \<and> y1 - r \<le> y) \<or>
           (ellipse_cov ((x0, y1 - d), (x0 + d, y1)) (x, y) \<and> x \<le> x0 + r \<and> y1 - r \<le> y) \<or>
           rect_cov ((x0 + r + 1, y0), (x1 - r - 1, y1)) (x, y) \<or>
           rect_cov ((x0, y0 + r + 1), (x0 + r, y1 - r - 1)) (x, y) \<or>
           rect_cov ((x1 - r, y0 + r + 1), (x1, y1 - r - 1)) (x, y))"

definition check_box :: "box \<Rightarrow> unit result" where
  "check_box b =
     (if fst (snd b) < fst (fst b) then Inl (ValueError ''x1 must be greater than or equal to x0'')
      else if snd (snd b) < snd (fst b) then Inl (ValueError ''y1 must be greater than or equal to y0'')
      else Inr ())"

definition rounded_rectangle :: "'p image \<Rightarrow> box \<Rightarrow> int \<Rightarrow> 'p \<Rightarrow> 'p image result" where
  "rounded_rectangle img b radius fill =
     and_then (check_box b) (\<lambda>_. Inr (paint img (rounded_rect_cov b radius) fill))"

definition ellipse :: "'p image \<Rightarrow> box \<Rightarrow> 'p \<Rightarrow> 'p image result" where
  "ellipse img b fill = and_then (check_box b) (\<lambda>_. Inr (paint img (ellipse_cov b) fill))"

text \<open>
  \<^verbatim>\<open>dst.paste(src, (0, 0), mask)\<close>: where the mask is 255 the pixel of \<open>src\<close> is copied,
  where it is 0 the pixel of \<open>dst\<close> stays, and values between blend the two.
\<close>

definition muldiv255 :: "int \<Rightarrow> int \<Rightarrow> int" where
  "muldiv255 a b = (let t = a * b + 128 in (t div 256 + t) div 256)"

definition blend8 :: "int \<Rightarrow> int \<Rightarrow> int \<Rightarrow> int" where
  "blend8 m out inp = muldiv255 inp m + muldiv255 out (255 - m)"

fun blend_rgb :: "int \<Rightarrow> rgb \<Rightarrow> rgb \<Rightarrow> rgb" where
  "blend_rgb m (r0, g0, b0) (r1, g1, b1) =
     (if m = 255 then (r1, g1, b1)
      else if m = 0 then (r0, g0, b0)
      else (blend8 m r0 r1, blend8 m g0 g1, blend8 m b0 b1))"

definition paste :: "rgb image \<Rightarrow> rgb image \<Rightarrow> int image \<Rightarrow> rgb image result" where
  "paste dst src msk =
     (if width msk \<noteq> width src \<or> height msk \<noteq> height src
      then Inl (ValueError ''images do not match'')
      else Inr (dst\<lparr>pixels := (\<lambda>p. if in_image dst p \<and> in_image src p
                                      then blend_rgb (pixels msk p) (pixels dst p) (pixels src p)
                                      else pixels dst p)\<rparr>))"

section \<open>The script\<close>

subsection \<open>\<^verbatim>\<open>create_rounded_rectangle_mask\<close>\<close>

definition create_rounded_rectangle_mask :: "int \<Rightarrow> int \<Rightarrow> int image result" where
  "create_rounded_rectangle_mask sz radius =
     and_then (Image_new sz sz 0)
       (\<lambda>msk. rounded_rectangle msk ((0, 0), (sz - 1, sz - 1)) radius 255)"

subsection \<open>\<^verbatim>\<open>draw_calendar_icon\<close>: the gradient\<close>

definition gradient_color :: "int \<Rightarrow> int \<Rightarrow> rgb result" where
  "gradient_color y sz =
     and_then (int_truediv y sz)
       (\<lambda>ratio. Inr (py_int (int_add_float 102 (int_mul_float (118 - 102) ratio)),
                      py_int (int_add_float 110 (int_mul_float (75 - 110) ratio)),
                      py_int (int_add_float 234 (int_mul_float (162 - 234) ratio))))"

fun gradient_loop :: "int \<Rightarrow> rgb image \<Rightarrow> int list \<Rightarrow> rgb image result" where
  "gradient_loop sz img [] = Inr img"
| "gradient_loop sz img (y # ys) =
     and_then (gradient_color y sz)
       (\<lambda>c. gradient_loop sz (draw_line img (0, y) (sz, y) c) ys)"

definition gradient_background :: "int \<Rightarrow> rgb image result" where
  "gradient_background sz =
     and_then (Image_new sz sz (0, 0, 0)) (\<lambda>img. gradient_loop sz img (py_range sz))"

subsection \<open>\<^verbatim>\<open>draw_calendar_icon\<close>: the geometry\<close>

definition bg_radius :: "int \<Rightarrow> int" where
  "bg_radius sz = py_int (int_mul_float sz (float_lit (15 / 100)))"

definition safe_zone :: "int \<Rightarrow> int" where
  "safe_zone sz = py_int (int_mul_float sz (float_lit (2 / 10)))"

definition content_size :: "int \<Rightarrow> int" where
  "content_size sz = sz - safe_zone sz * 2"

definition content_x :: "int \<Rightarrow> int" where
  "content_x sz = safe_zone sz"

definition content_y :: "int \<Rightarrow> int" where
  "content_y sz = safe_zone sz"

definition padding :: "int \<Rightarrow> int" where
  "padding sz = py_int (int_mul_float (content_size sz) (float_lit (2 / 10)))"

definition cal_width :: "int \<Rightarrow> int" where
  "cal_width sz = content_size sz - padding sz * 2"

definition cal_height :: "int \<Rightarrow> int" where
  "cal_height sz = py_int (int_mul_float (cal_width sz) (float_lit (9 / 10)))"

definition cal_x :: "int \<Rightarrow> int" where
  "cal_x sz = content_x sz + padding sz"

definition cal_y :: "int \<Rightarrow> int" where
  "cal_y sz = content_y sz + py_int (int_mul_float (content_size sz) (float_lit (15 / 100)))"

definition cal_radius :: "int \<Rightarrow> int" where
  "cal_radius sz = py_int (int_mul_float sz (float_lit (4 / 100)))"

definition header_height :: "int \<Rightarrow> int" where
  "header_height sz = py_int (int_mul_float (cal_height sz) (float_lit (2 / 10)))"

definition dot_size :: "int \<Rightarrow> int" where
  "dot_size sz = py_int (int_mul_float (cal_width sz) (float_lit (8 / 100)))"

definition dot_spacing :: "int \<Rightarrow> int" where
  "dot_spacing sz = floordiv (cal_width sz) 4"

definition start_x :: "int \<Rightarrow> int" where
  "start_x sz = cal_x sz + py_int (int_mul_float (dot_spacing sz) (float_lit (7 / 10)))"

definition start_y :: "int \<Rightarrow> int" where
  "start_y sz = cal_y sz + py_int (int_mul_float (cal_height sz) (float_lit (4 / 10)))"

definition body_box :: "int \<Rightarrow> box" where
  "body_box sz = ((cal_x sz, cal_y sz), (cal_x sz + cal_width sz, cal_y sz + cal_height sz))"

definition header_box :: "int \<Rightarrow> box" where
  "header_box sz = ((cal_x sz, cal_y sz), (cal_x sz + cal_width sz, cal_y sz + header_height sz))"

text \<open>The box of the dot in column \<open>i\<close> of the row at height \<open>y\<close>.\<close>

definition dot_box :: "int \<Rightarrow> int \<Rightarrow> int \<Rightarrow> box" where
  "dot_box sz y i =
     (let x = start_x sz + i * dot_spacing sz
      in ((x - dot_size sz, y - dot_size sz), (x + dot_size sz, y + dot_size sz)))"

subsection \<open>\<^verbatim>\<open>draw_calendar_icon\<close>: the drawing\<close>

fun dot_loop :: "rgb image \<Rightarrow> (int \<Rightarrow> box) \<Rightarrow> rgb \<Rightarrow> int list \<Rightarrow> rgb image result" where
  "dot_loop img bx c [] = Inr img"
| "dot_loop img bx c (i # is) = and_then (ellipse img (bx i) c) (\<lambda>img'. dot_loop img' bx c is)"

definition rounded_background :: "int \<Rightarrow> rgb image result" where
  "rounded_background sz =
     and_then (gradient_background sz) (\<lambda>img.
     and_then (create_rounded_rectangle_mask sz (bg_radius sz)) (\<lambda>msk.
     and_then (Image_new sz sz (255, 255, 255)) (\<lambda>rounded_img.
     paste rounded_img img msk)))"

definition draw_calendar_icon :: "int \<Rightarrow> rgb image result" where
  "draw_calendar_icon sz =
     and_then (rounded_background sz) (\<lambda>img.
     and_then (rounded_rectangle img (body_box sz) (cal_radius sz) (242, 242, 242)) (\<lambda>img.
     and_then (rounded_rectangle img (header_box sz) (cal_radius sz) (255, 255, 255)) (\<lambda>img.
     and_then (dot_loop img (dot_box sz (start_y sz)) (102, 110, 234) (py_range 3)) (\<lambda>img.
     and_then (dot_loop img (dot_box sz (start_y sz + dot_spacing sz)) (118, 75, 162) (py_range 3)) (\<lambda>img.
     dot_loop img (dot_box sz (start_y sz + dot_spacing sz * 2)) (102, 110, 234) (py_range 2))))))"

subsection \<open>\<^verbatim>\<open>generate_icon\<close> and the main program\<close>

text \<open>
  The world the program runs in: the lines printed so far, the files of the working
  directory, and the faults of the file system (for a file name, the exception a write
  raises and what it leaves of the file; \<open>None\<close> when the write succeeds).  The PNG encoder
  of the imaging library is a parameter \<open>enc\<close>.
\<close>

type_synonym byte = "8 word"

record world =
  stdout :: "string list"
  files :: "string \<rightharpoonup> byte list"
  write_fault :: "string \<Rightarrow> (exn \<times> byte list option) option"

definition print :: "string \<Rightarrow> world \<Rightarrow> world" where
  "print s w = w\<lparr>stdout := stdout w @ [s]\<rparr>"

definition save :: "(rgb image \<Rightarrow> byte list) \<Rightarrow> rgb image \<Rightarrow> string \<Rightarrow> world \<Rightarrow> world \<times> exn option" where
  "save enc img filename w =
     (case write_fault w filename of
        None \<Rightarrow> (w\<lparr>files := (files w)(filename \<mapsto> enc img)\<rparr>, None)
      | Some (e, rest) \<Rightarrow>
          (w\<lparr>files := (case rest of None \<Rightarrow> files w | Some bs \<Rightarrow> (files w)(filename \<mapsto> bs))\<rparr>,
           Some e))"

definition check_mark :: string where
  "check_mark = [CHR 0xE2, CHR 0x9C, CHR 0x93]"

definition generate_icon :: "(rgb image \<Rightarrow> byte list) \<Rightarrow> int \<Rightarrow> world \<Rightarrow> world \<times> exn option" where
  "generate_icon enc sz w =
     (let w1 = print (''Generating '' @ str_int sz @ ''x'' @ str_int sz @ '' icon...'') w
      in case draw_calendar_icon sz of
           Inl e \<Rightarrow> (w1, Some e)
         | Inr img \<Rightarrow>
             (let filename = ''icon-'' @ str_int sz @ ''.png''
              in case save enc img filename w1 of
                   (w2, Some e) \<Rightarrow> (w2, Some e)
                 | (w2, None) \<Rightarrow> (print (check_mark @ '' Created '' @ filename) w2, None)))"

definition fallback_advice :: string where
  "fallback_advice =
     ''Please open generate-pwa-icons.html in your browser to generate icons manually.''"

definition on_error :: "exn \<Rightarrow> world \<Rightarrow> world \<times> int" where
  "on_error e w =
     (print ([CHR 0x0A] @ ''Fallback: '' @ fallback_advice)
        (print (''Error generating icons: '' @ exn_str e) w), 1)"

definition main :: "(rgb image \<Rightarrow> byte list) \<Rightarrow> world \<Rightarrow> world \<times> int" where
  "main enc w =
     (let w0 = print (''Generating PWA icons for AuraFlow...'' @ [CHR 0x0A]) w
      in case generate_icon enc 192 w0 of
           (w1, Some e) \<Rightarrow> on_error e w1
         | (w1, None) \<Rightarrow>
             (case generate_icon enc 512 w1 of
                (w2, Some e) \<Rightarrow> on_error e w2
              | (w2, None) \<Rightarrow>
                  (print ''Icons meet PWA maskable requirements with 20% safe zone padding.''
                     (print ([CHR 0x0A] @ check_mark @ '' All PWA icons generated successfully!'') w2),
                   0)))"

text \<open>The whole script: the import guard, then the main program.\<close>

definition script :: "bool \<Rightarrow> (rgb image \<Rightarrow> byte list) \<Rightarrow> world \<Rightarrow> world \<times> int" where
  "script pil_available enc w =
     (if \<not> pil_available
      then (print fallback_advice (print ''PIL/Pillow not available.'' w), 0)
      else main enc w)"

section \<open>Rounding to nearest\<close>

text \<open>Facts about \<open>rne\<close>, \<open>flog2\<close> and \<open>fl\<close>: rounding is odd, monotone, keeps every
  number with a 53 bit significand, and has relative error at most \<open>2\<^sup>-\<^sup>5\<^sup>3\<close>.\<close>

lemma rne_of_int: "rne (of_int n) = n"
  by (simp add: rne_def)

lemma rne_minus: "rne (- q) = - rne q"
proof (cases "q = of_int \<lfloor>q\<rfloor>")
  case True
  then obtain n where "q = of_int n" ..
  then show ?thesis
    by (simp add: rne_of_int flip: of_int_minus)
next
  case False
  have b: "of_int \<lfloor>q\<rfloor> < q" "q < of_int \<lfloor>q\<rfloor> + 1"
    using False by linarith+
  have f: "\<lfloor>- q\<rfloor> = - \<lfloor>q\<rfloor> - 1"
    by (rule floor_unique) (use b in simp_all)
  define n where "n = \<lfloor>q\<rfloor>"
  define r where "r = q - of_int n"
  have q: "q = of_int n + r" by (simp add: r_def)
  have r: "0 < r" "r < 1" using b by (simp_all add: r_def n_def)
  have "rne (- q) = (if 1 - r < 1 / 2 then - n - 1 else if 1 / 2 < 1 - r then - n else if even (- n - 1) then - n - 1 else - n)"
    unfolding rne_def Let_def f n_def [symmetric] by (simp add: q)
  moreover have "rne q = (if r < 1 / 2 then n else if 1 / 2 < r then n + 1 else if even n then n else n + 1)"
    unfolding rne_def Let_def n_def [symmetric] by (simp add: q)
  ultimately show ?thesis
    using r by (auto simp: )
qed

lemma flog2_bounds:
  assumes "0 < x"
  shows "2 powi flog2 x \<le> x" and "x < 2 powi (flog2 x + 1)"
proof -
  have "2 powi flog2 x \<le> x \<and> x < 2 powi (flog2 x + 1)"
  proof (cases "1 \<le> x")
    case True
    define n where "n = \<lfloor>x\<rfloor>"
    have n: "0 < n" using True by (simp add: n_def)
    have nx: "of_int n \<le> x" "x < of_int n + 1" by (simp_all add: n_def) linarith
    from bitlen_bounds [OF n] have bb: "2 ^ nat (bitlen n - 1) \<le> n" "n < 2 ^ nat (bitlen n)" by simp_all
    have b1: "1 \<le> bitlen n" using n by (simp add: bitlen_alt_def)
    have fl: "flog2 x = bitlen n - 1" using True by (simp add: flog2_def n_def)
    have "(2::rat) powi (bitlen n - 1) = of_int (2 ^ nat (bitlen n - 1))"
      using b1 by (simp add: power_int_def)
    also have "\<dots> \<le> of_int n" using bb(1) by (simp only: of_int_le_iff)
    finally have lo: "(2::rat) powi (bitlen n - 1) \<le> x" using nx by linarith
    have "n + 1 \<le> 2 ^ nat (bitlen n)" using bb(2) by simp
    then have "(of_int (n + 1) :: rat) \<le> of_int (2 ^ nat (bitlen n))" by (simp only: of_int_le_iff)
    also have "\<dots> = 2 powi (bitlen n)" using b1 by (simp add: power_int_def)
    finally have hi: "x < 2 powi (bitlen n)" using nx by simp
    show ?thesis using lo hi by (simp add: fl)
  next
    case False
    define n where "n = \<lceil>1 / x\<rceil>"
    have x1: "1 < 1 / x" using False assms by simp
    then have n: "0 < n - 1" unfolding n_def by linarith
    have nx: "of_int n - 1 < 1 / x" "1 / x \<le> of_int n" unfolding n_def by linarith+
    from bitlen_bounds [OF n]
    have bb: "2 ^ nat (bitlen (n - 1) - 1) \<le> n - 1" "n - 1 < 2 ^ nat (bitlen (n - 1))" by simp_all
    have b1: "1 \<le> bitlen (n - 1)" using n by (simp add: bitlen_alt_def)
    have fl: "flog2 x = - bitlen (n - 1)" using False by (simp add: flog2_def n_def)
    have "n \<le> 2 ^ nat (bitlen (n - 1))" using bb(2) by simp
    then have "(of_int n :: rat) \<le> of_int (2 ^ nat (bitlen (n - 1)))" by (simp only: of_int_le_iff)
    then have "(of_int n :: rat) \<le> 2 ^ nat (bitlen (n - 1))" by simp
    then have "1 / x \<le> 2 ^ nat (bitlen (n - 1))" using nx by linarith
    then have "1 / 2 ^ nat (bitlen (n - 1)) \<le> x"
      using assms by (simp add: field_simps)
    moreover have "(2::rat) powi (- bitlen (n - 1)) = 1 / 2 ^ nat (bitlen (n - 1))"
      using b1 by (simp add: power_int_def field_simps)
    ultimately have lo: "(2::rat) powi (- bitlen (n - 1)) \<le> x" by simp
    have "(of_int (2 ^ nat (bitlen (n - 1) - 1)) :: rat) \<le> of_int (n - 1)"
      using bb(1) by (simp only: of_int_le_iff)
    then have "(2::rat) ^ nat (bitlen (n - 1) - 1) \<le> of_int n - 1" by simp
    then have "2 ^ nat (bitlen (n - 1) - 1) < 1 / x" using nx by linarith
    then have "x < 1 / 2 ^ nat (bitlen (n - 1) - 1)"
      using assms by (simp add: field_simps)
    moreover have "(2::rat) powi (- bitlen (n - 1) + 1) = 1 / 2 ^ nat (bitlen (n - 1) - 1)"
    proof (cases "bitlen (n - 1) = 1")
      case True
      then show ?thesis by simp
    next
      case False
      then have "- bitlen (n - 1) + 1 < 0" using b1 by simp
      then show ?thesis
        by (simp add: power_int_def field_simps nat_diff_distrib)
    qed
    ultimately have hi: "x < 2 powi (- bitlen (n - 1) + 1)" by simp
    show ?thesis using lo hi by (simp add: fl)
  qed
  then show "2 powi flog2 x \<le> x" and "x < 2 powi (flog2 x + 1)" by simp_all
qed

lemma flog2_unique:
  assumes "2 powi k \<le> x" "x < 2 powi (k + 1)"
  shows "flog2 x = k"
proof -
  have "(0::rat) < 2 powi k" by simp
  then have x: "0 < x" using assms(1) by linarith
  note b = flog2_bounds [OF x]
  have "(2::rat) powi k < 2 powi (flog2 x + 1)" using assms(1) b(2) by linarith
  then have 1: "k < flog2 x + 1"
    using power_int_increasing [of "flog2 x + 1" k "2::rat"] by force
  have "(2::rat) powi flog2 x < 2 powi (k + 1)" using assms(2) b(1) by linarith
  then have 2: "flog2 x < k + 1"
    using power_int_increasing [of "k + 1" "flog2 x" "2::rat"] by force
  from 1 2 show ?thesis by simp
qed

lemma rne_err: "\<bar>of_int (rne q) - q\<bar> \<le> 1 / 2"
proof -
  define n where "n = \<lfloor>q\<rfloor>"
  define r where "r = q - of_int n"
  have q: "q = of_int n + r" by (simp add: r_def)
  have r: "0 \<le> r" "r < 1" unfolding r_def n_def by linarith+
  have "rne q = (if r < 1 / 2 then n else if 1 / 2 < r then n + 1 else if even n then n else n + 1)"
    unfolding rne_def Let_def n_def [symmetric] by (simp add: q)
  then show ?thesis using r by (auto simp: q)
qed

lemma rne_floor_le: "\<lfloor>q\<rfloor> \<le> rne q"
  by (simp add: rne_def Let_def)

lemma rne_le_floor1: "rne q \<le> \<lfloor>q\<rfloor> + 1"
  by (simp add: rne_def Let_def)

lemma rne_mono:
  assumes "x \<le> y" shows "rne x \<le> rne y"
proof (cases "\<lfloor>x\<rfloor> = \<lfloor>y\<rfloor>")
  case True
  define n where "n = \<lfloor>y\<rfloor>"
  have "x - of_int n \<le> y - of_int n" using assms by simp
  then show ?thesis
    unfolding rne_def Let_def True n_def [symmetric] by auto
next
  case False
  moreover have "\<lfloor>x\<rfloor> \<le> \<lfloor>y\<rfloor>" using assms by (rule floor_mono)
  ultimately have "\<lfloor>x\<rfloor> + 1 \<le> \<lfloor>y\<rfloor>" by simp
  then show ?thesis
    using rne_le_floor1 [of x] rne_floor_le [of y] by linarith
qed

lemma rne_near:
  assumes "\<bar>q - of_int m\<bar> < 1 / 2" shows "rne q = m"
proof -
  have "\<bar>of_int (rne q) - (of_int m :: rat)\<bar> < 1"
    using rne_err [of q] assms by linarith
  then have "\<bar>(of_int (rne q - m) :: rat)\<bar> < of_int 1" by simp
  then have "\<bar>rne q - m\<bar> < 1" unfolding of_int_abs [symmetric] of_int_less_iff .
  then show ?thesis by simp
qed

lemma fl_0: "fl 0 = 0"
  by (simp add: fl_def)

lemma fl_at:
  assumes "2 powi k \<le> \<bar>x\<bar>" "\<bar>x\<bar> < 2 powi (k + 1)"
  shows "fl x = of_int (rne (x / 2 powi (k - 52))) * 2 powi (k - 52)"
proof -
  have "(0::rat) < 2 powi k" by simp
  then have "0 < \<bar>x\<bar>" using assms(1) by linarith
  then have "x \<noteq> 0" by simp
  moreover have "flog2 \<bar>x\<bar> = k" using assms by (rule flog2_unique)
  ultimately show ?thesis by (simp add: fl_def Let_def)
qed

lemma fl_minus: "fl (- x) = - fl x"
  by (simp add: fl_def Let_def rne_minus)

lemma fl_pos_range:
  assumes "2 powi k \<le> x" "x < 2 powi (k + 1)"
  shows "2 powi k \<le> fl x" and "fl x \<le> 2 powi (k + 1)"
proof -
  have "(0::rat) < 2 powi k" by simp
  then have x: "0 < x" using assms(1) by linarith
  have e: "fl x = of_int (rne (x / 2 powi (k - 52))) * 2 powi (k - 52)"
    using assms x by (intro fl_at) simp_all
  have p: "(0::rat) < 2 powi (k - 52)" by simp
  have k1: "(2::rat) powi k = 2 ^ 52 * 2 powi (k - 52)"
    using power_int_add [of "2::rat" 52 "k - 52"] by simp
  have k2: "(2::rat) powi (k + 1) = 2 ^ 53 * 2 powi (k - 52)"
    using power_int_add [of "2::rat" 53 "k - 52"] by (simp add: add.commute)
  have "2 ^ 52 \<le> x / 2 powi (k - 52)"
    using assms(1) p unfolding k1 by (simp add: field_simps)
  then have "rne (of_int (2 ^ 52)) \<le> rne (x / 2 powi (k - 52))"
    by (intro rne_mono) simp
  then have lo: "2 ^ 52 \<le> rne (x / 2 powi (k - 52))" by (simp only: rne_of_int)
  have "x / 2 powi (k - 52) \<le> 2 ^ 53"
    using assms(2) p unfolding k2 by (simp add: field_simps)
  then have "rne (x / 2 powi (k - 52)) \<le> rne (of_int (2 ^ 53))"
    by (intro rne_mono) simp
  then have hi: "rne (x / 2 powi (k - 52)) \<le> 2 ^ 53" by (simp only: rne_of_int)
  have "(of_int (2 ^ 52) :: rat) \<le> of_int (rne (x / 2 powi (k - 52)))"
    using lo by (simp only: of_int_le_iff)
  then show "2 powi k \<le> fl x"
    unfolding e k1 using p by (intro mult_right_mono) simp_all
  have "(of_int (rne (x / 2 powi (k - 52))) :: rat) \<le> of_int (2 ^ 53)"
    using hi by (simp only: of_int_le_iff)
  then show "fl x \<le> 2 powi (k + 1)"
    unfolding e k2 using p by (intro mult_right_mono) simp_all
qed

lemma fl_mono_pos:
  assumes "0 < x" "x \<le> y"
  shows "fl x \<le> fl y"
proof -
  have y: "0 < y" using assms by simp
  define k where "k = flog2 x"
  define l where "l = flog2 y"
  note bx = flog2_bounds [OF assms(1), folded k_def]
  note by' = flog2_bounds [OF y, folded l_def]
  have "(2::rat) powi k < 2 powi (l + 1)" using bx(1) by'(2) assms(2) by linarith
  then have kl: "k \<le> l"
    using power_int_increasing [of "l + 1" k "2::rat"] by force
  show ?thesis
  proof (cases "k = l")
    case True
    have ex: "fl x = of_int (rne (x / 2 powi (k - 52))) * 2 powi (k - 52)"
      using bx assms(1) by (intro fl_at) simp_all
    have ey: "fl y = of_int (rne (y / 2 powi (k - 52))) * 2 powi (k - 52)"
      using by' y True by (intro fl_at) simp_all
    have "x / 2 powi (k - 52) \<le> y / 2 powi (k - 52)"
      using assms(2) by (simp add: divide_right_mono)
    then have "rne (x / 2 powi (k - 52)) \<le> rne (y / 2 powi (k - 52))" by (rule rne_mono)
    then have "(of_int (rne (x / 2 powi (k - 52))) :: rat) \<le> of_int (rne (y / 2 powi (k - 52)))"
      by (simp only: of_int_le_iff)
    then show ?thesis unfolding ex ey by (intro mult_right_mono) simp_all
  next
    case False
    then have "k + 1 \<le> l" using kl by simp
    then have "(2::rat) powi (k + 1) \<le> 2 powi l" by (intro power_int_increasing) simp_all
    then show ?thesis
      using fl_pos_range(2) [OF bx] fl_pos_range(1) [OF by'] by linarith
  qed
qed

lemma fl_nonneg: "0 \<le> x \<Longrightarrow> 0 \<le> fl x"
proof (cases "x = 0")
  case True then show ?thesis by (simp add: fl_0)
next
  case False
  assume "0 \<le> x"
  with False have x: "0 < x" by simp
  have "(0::rat) \<le> 2 powi flog2 x" by simp
  then show ?thesis using fl_pos_range(1) [OF flog2_bounds [OF x]] by linarith
qed

lemma fl_mono:
  assumes "x \<le> y" shows "fl x \<le> fl y"
proof -
  consider "0 < x" | "y < 0" | "x \<le> 0" "0 \<le> y" by linarith
  then show ?thesis
  proof cases
    case 1 then show ?thesis using assms by (rule fl_mono_pos)
  next
    case 2
    then have "fl (- y) \<le> fl (- x)" using assms by (intro fl_mono_pos) simp_all
    then show ?thesis by (simp add: fl_minus)
  next
    case 3
    have "0 \<le> fl (- x)" using 3 by (intro fl_nonneg) simp
    then have "fl x \<le> 0" by (simp add: fl_minus)
    moreover have "0 \<le> fl y" using 3 by (intro fl_nonneg)
    ultimately show ?thesis by simp
  qed
qed

lemma fl_repr_pos:
  assumes "0 < m" "m < 2 ^ 53"
  shows "fl (of_int m * 2 powi j) = of_int m * 2 powi j"
proof -
  define x :: rat where "x = of_int m * 2 powi j"
  have x: "0 < x" using assms(1) by (simp add: x_def)
  define k where "k = flog2 x"
  note b = flog2_bounds [OF x, folded k_def]
  have "(of_int m :: rat) < of_int (2 ^ 53)" using assms(2) by (simp only: of_int_less_iff)
  then have "x < 2 ^ 53 * 2 powi j" by (simp add: x_def)
  also have "\<dots> = 2 powi (53 + j)"
    using power_int_add [of "2::rat" 53 j] by simp
  finally have "(2::rat) powi k < 2 powi (53 + j)" using b(1) by linarith
  then have "k < 53 + j"
    using power_int_increasing [of "53 + j" k "2::rat"] by force
  then have d: "0 \<le> j - (k - 52)" by simp
  define d where "d = nat (j - (k - 52))"
  have j: "j = int d + (k - 52)" using d by (simp add: d_def)
  have pj: "(2::rat) powi j = 2 ^ d * 2 powi (k - 52)"
    unfolding j using power_int_add [of "2::rat" "int d" "k - 52"] by simp
  have "x / 2 powi (k - 52) = of_int (m * 2 ^ d)"
    by (simp add: x_def pj)
  then have "rne (x / 2 powi (k - 52)) = m * 2 ^ d" by (simp only: rne_of_int)
  moreover have "fl x = of_int (rne (x / 2 powi (k - 52))) * 2 powi (k - 52)"
    using b x by (intro fl_at) simp_all
  ultimately have "fl x = of_int (m * 2 ^ d) * 2 powi (k - 52)" by simp
  also have "\<dots> = x" by (simp add: x_def pj)
  finally show ?thesis by (simp add: x_def)
qed

lemma fl_repr:
  assumes "\<bar>m\<bar> < 2 ^ 53"
  shows "fl (of_int m * 2 powi j) = of_int m * 2 powi j"
proof -
  consider "m = 0" | "0 < m" | "m < 0" by linarith
  then show ?thesis
  proof cases
    case 1 then show ?thesis by (simp add: fl_0)
  next
    case 2 then show ?thesis using assms by (intro fl_repr_pos) simp_all
  next
    case 3
    then have "fl (of_int (- m) * 2 powi j) = of_int (- m) * 2 powi j"
      using assms by (intro fl_repr_pos) simp_all
    then have "fl (- (of_int m * 2 powi j)) = - (of_int m * 2 powi j)" by simp
    then show ?thesis unfolding fl_minus by simp
  qed
qed

lemma fl_of_int:
  assumes "\<bar>n\<bar> < 2 ^ 53"
  shows "fl (of_int n) = of_int n"
  using fl_repr [OF assms, of 0] by simp

lemma fl_rel_err: "\<bar>fl x - x\<bar> \<le> \<bar>x\<bar> / 2 ^ 53"
proof (cases "x = 0")
  case True then show ?thesis by (simp add: fl_0)
next
  case False
  then have ax: "0 < \<bar>x\<bar>" by simp
  define k where "k = flog2 \<bar>x\<bar>"
  note b = flog2_bounds [OF ax, folded k_def]
  define e where "e = k - 52"
  have p: "(0::rat) < 2 powi e" by simp
  have fx: "fl x = of_int (rne (x / 2 powi e)) * 2 powi e"
    unfolding e_def using b by (rule fl_at)
  have "fl x - x = (of_int (rne (x / 2 powi e)) - x / 2 powi e) * 2 powi e"
    unfolding fx using p by (simp add: field_simps)
  then have "\<bar>fl x - x\<bar> = \<bar>of_int (rne (x / 2 powi e)) - x / 2 powi e\<bar> * 2 powi e"
    using p by (simp add: abs_mult)
  also have "\<dots> \<le> 1 / 2 * 2 powi e"
    using rne_err [of "x / 2 powi e"] p by (intro mult_right_mono) simp_all
  also have "\<dots> = 2 powi k / 2 ^ 53"
    using power_int_add [of "2::rat" 52 e] by (simp add: e_def)
  also have "\<dots> \<le> \<bar>x\<bar> / 2 ^ 53"
    using b(1) by (simp add: divide_right_mono)
  finally show ?thesis .
qed

lemma py_int_nonneg: "0 \<le> x \<Longrightarrow> py_int x = \<lfloor>x\<rfloor>"
  by (simp add: py_int_def)

lemma py_int_fl_between:
  assumes "0 \<le> k" "k < 2 ^ 45" "of_int k \<le> x" "x \<le> of_int k + 127 / 128"
  shows "py_int (fl x) = k"
proof -
  have "fl (of_int k) \<le> fl x" using assms(3) by (rule fl_mono)
  moreover have "fl (of_int k) = of_int k" using assms(1,2) by (intro fl_of_int) simp
  ultimately have lo: "of_int k \<le> fl x" by simp
  have "\<bar>128 * k + 127\<bar> < 2 ^ 53" using assms(1,2) by simp
  from fl_repr [OF this, of "- 7"]
  have "fl (of_int k + 127 / 128) = of_int k + 127 / 128"
    by (simp add: power_int_minus field_simps)
  moreover have "fl x \<le> fl (of_int k + 127 / 128)" using assms(4) by (rule fl_mono)
  ultimately have hi: "fl x \<le> of_int k + 127 / 128" by simp
  have "(0::rat) \<le> of_int k" using assms(1) by simp
  then have "0 \<le> fl x" using lo by linarith
  then have "py_int (fl x) = \<lfloor>fl x\<rfloor>" by (rule py_int_nonneg)
  also have "\<dots> = k" using lo hi by (intro floor_unique) simp_all
  finally show ?thesis .
qed

section \<open>The float literals of the script\<close>

lemma fl_lit:
  assumes "2 powi k \<le> d" "d < 2 powi (k + 1)" "rne (d / 2 powi (k - 52)) = m"
  shows "float_lit d = of_int m * 2 powi (k - 52)"
proof -
  have "(0::rat) < 2 powi k" by simp
  then have "0 < d" using assms(1) by linarith
  then show ?thesis
    unfolding float_lit_def using fl_at [of k d] assms by simp
qed

lemma lit_015: "float_lit (15 / 100) = 5404319552844595 / 2 ^ 55"
proof -
  have "rne ((15 / 100) / 2 powi (- 3 - 52)) = 5404319552844595"
    by (rule rne_near) (simp add: power_int_minus)
  from fl_lit [OF _ _ this] show ?thesis
    by (simp add: power_int_minus)
qed

lemma lit_02: "float_lit (2 / 10) = 3602879701896397 / 2 ^ 54"
proof -
  have "rne ((2 / 10) / 2 powi (- 3 - 52)) = 7205759403792794"
    by (rule rne_near) (simp add: power_int_minus)
  from fl_lit [OF _ _ this] show ?thesis
    by (simp add: power_int_minus)
qed

lemma lit_09: "float_lit (9 / 10) = 8106479329266893 / 2 ^ 53"
proof -
  have "rne ((9 / 10) / 2 powi (- 1 - 52)) = 8106479329266893"
    by (rule rne_near) (simp add: power_int_minus)
  from fl_lit [OF _ _ this] show ?thesis
    by (simp add: power_int_minus)
qed

lemma lit_004: "float_lit (4 / 100) = 5764607523034235 / 2 ^ 57"
proof -
  have "rne ((4 / 100) / 2 powi (- 5 - 52)) = 5764607523034235"
    by (rule rne_near) (simp add: power_int_minus)
  from fl_lit [OF _ _ this] show ?thesis
    by (simp add: power_int_minus)
qed

lemma lit_008: "float_lit (8 / 100) = 5764607523034235 / 2 ^ 56"
proof -
  have "rne ((8 / 100) / 2 powi (- 4 - 52)) = 5764607523034235"
    by (rule rne_near) (simp add: power_int_minus)
  from fl_lit [OF _ _ this] show ?thesis
    by (simp add: power_int_minus)
qed

lemma lit_07: "float_lit (7 / 10) = 3152519739159347 / 2 ^ 52"
proof -
  have "rne ((7 / 10) / 2 powi (- 1 - 52)) = 6305039478318694"
    by (rule rne_near) (simp add: power_int_minus)
  from fl_lit [OF _ _ this] show ?thesis
    by (simp add: power_int_minus)
qed

lemma lit_04: "float_lit (4 / 10) = 3602879701896397 / 2 ^ 53"
proof -
  have "rne ((4 / 10) / 2 powi (- 2 - 52)) = 7205759403792794"
    by (rule rne_near) (simp add: power_int_minus)
  from fl_lit [OF _ _ this] show ?thesis
    by (simp add: power_int_minus)
qed

section \<open>Truncated products\<close>

text \<open>For the literals that lie above their decimal value, \<^verbatim>\<open>int(n * c)\<close> is the exact
  integer quotient.\<close>

lemma float_of_int_exact: "\<bar>n\<bar> < 2 ^ 53 \<Longrightarrow> float_of_int n = of_int n"
  unfolding float_of_int_def by (rule fl_of_int)

lemma int_mul_float_eq: "\<bar>n\<bar> < 2 ^ 53 \<Longrightarrow> int_mul_float n c = fl (of_int n * c)"
  by (simp add: int_mul_float_def float_of_int_exact)

lemma div_mod_rat:
  fixes a n b :: int
  assumes "0 < b"
  shows "(of_int (a * n) :: rat) / of_int b = of_int ((a * n) div b) + of_int ((a * n) mod b) / of_int b"
proof -
  have "a * n = b * ((a * n) div b) + (a * n) mod b" by simp
  then have "(of_int (a * n) :: rat) = of_int b * of_int ((a * n) div b) + of_int ((a * n) mod b)"
    by (metis of_int_add of_int_mult)
  then show ?thesis using assms by (simp add: field_simps)
qed

lemma py_int_scaled:
  fixes a b n :: int and C :: rat
  assumes n: "0 \<le> n" "n < 2 ^ 40"
    and b: "0 < b" "b \<le> 100" and a: "0 \<le> a" "a \<le> b"
    and C: "of_int a / of_int b \<le> C" "C \<le> of_int a / of_int b + 1 / 2 ^ 52"
  shows "py_int (int_mul_float n C) = (a * n) div b"
proof -
  define k where "k = (a * n) div b"
  define r where "r = (a * n) mod b"
  have r: "0 \<le> r" "r \<le> b - 1" using b by (simp_all add: r_def)
  have e: "(of_int (a * n) :: rat) / of_int b = of_int k + of_int r / of_int b"
    unfolding k_def r_def using b(1) by (rule div_mod_rat)
  have bq: "(0::rat) < of_int b" "(of_int b :: rat) \<le> 100" using b by simp_all
  have nq: "(0::rat) \<le> of_int n" "(of_int n :: rat) \<le> 2 ^ 40" using n by simp_all
  have rq: "(0::rat) \<le> of_int r / of_int b" using r b by simp
  have "(of_int r :: rat) \<le> of_int (b - 1)" using r(2) by (simp only: of_int_le_iff)
  then have "(of_int r :: rat) \<le> of_int b - 1" by simp
  then have "(of_int r :: rat) / of_int b \<le> 1 - 1 / of_int b"
    using bq by (simp add: field_simps)
  moreover have "1 / 100 \<le> 1 / (of_int b :: rat)" using bq by (simp add: field_simps)
  ultimately have rq2: "(of_int r :: rat) / of_int b \<le> 99 / 100" by linarith
  have k0: "0 \<le> k" using n a b by (simp add: k_def pos_imp_zdiv_nonneg_iff)
  have "a * n \<le> b * n" using a n by (simp add: mult_right_mono)
  then have "(a * n) div b \<le> (b * n) div b" using b(1) by (rule zdiv_mono1)
  also have "(b * n) div b = n" using b(1) by simp
  finally have "k \<le> n" by (simp add: k_def)
  then have k1: "k < 2 ^ 45" using n by simp
  have x1: "of_int n * (of_int a / of_int b) \<le> of_int n * C"
    using C(1) nq(1) by (rule mult_left_mono)
  have x2: "of_int n * C \<le> of_int n * (of_int a / of_int b + 1 / 2 ^ 52)"
    using C(2) nq(1) by (rule mult_left_mono)
  have x3: "of_int n * (of_int a / of_int b) = (of_int (a * n) :: rat) / of_int b" by simp
  have x4: "(of_int n :: rat) * (1 / 2 ^ 52) \<le> 2 ^ 40 * (1 / 2 ^ 52)"
    using nq(2) by (intro mult_right_mono) simp_all
  have lo: "of_int k \<le> of_int n * C" using x1 x3 e rq by linarith
  have "of_int n * C \<le> of_int k + of_int r / of_int b + of_int n * (1 / 2 ^ 52)"
    using x2 x3 e by (simp add: algebra_simps)
  then have hi: "of_int n * C \<le> of_int k + 127 / 128" using x4 rq2 by simp
  have "\<bar>n\<bar> < 2 ^ 53" using n by simp
  then have "int_mul_float n C = fl (of_int n * C)" by (rule int_mul_float_eq)
  then show ?thesis using py_int_fl_between [OF k0 k1 lo hi] by (simp add: k_def)
qed

lemma py_int_02:
  assumes "0 \<le> n" "n < 2 ^ 40"
  shows "py_int (int_mul_float n (float_lit (2 / 10))) = n div 5"
proof -
  have "py_int (int_mul_float n (float_lit (2 / 10))) = (1 * n) div 5"
    using assms unfolding lit_02 by (intro py_int_scaled) simp_all
  then show ?thesis by simp
qed

lemma py_int_09:
  assumes "0 \<le> n" "n < 2 ^ 40"
  shows "py_int (int_mul_float n (float_lit (9 / 10))) = (9 * n) div 10"
  using assms unfolding lit_09 by (intro py_int_scaled) simp_all

lemma py_int_004:
  assumes "0 \<le> n" "n < 2 ^ 40"
  shows "py_int (int_mul_float n (float_lit (4 / 100))) = n div 25"
proof -
  have "py_int (int_mul_float n (float_lit (4 / 100))) = (1 * n) div 25"
    using assms unfolding lit_004 by (intro py_int_scaled) simp_all
  then show ?thesis by simp
qed

lemma py_int_008:
  assumes "0 \<le> n" "n < 2 ^ 40"
  shows "py_int (int_mul_float n (float_lit (8 / 100))) = (2 * n) div 25"
  using assms unfolding lit_008 by (intro py_int_scaled) simp_all

lemma py_int_04:
  assumes "0 \<le> n" "n < 2 ^ 40"
  shows "py_int (int_mul_float n (float_lit (4 / 10))) = (2 * n) div 5"
  using assms unfolding lit_04 by (intro py_int_scaled) simp_all

section \<open>Bounds on products and the literals below their decimal value\<close>


lemma fl_lower:
  assumes "0 \<le> x" shows "x * (1 - 1 / 2 ^ 53) \<le> fl x"
proof -
  have "\<bar>fl x - x\<bar> \<le> x / 2 ^ 53" using fl_rel_err [of x] assms by simp
  moreover have "x * (1 - 1 / 2 ^ 53) = x - x / 2 ^ 53" by (simp add: algebra_simps)
  ultimately show ?thesis by linarith
qed



lemma int_mul_float_lower:
  assumes "0 \<le> n" "0 \<le> c"
  shows "of_int n * c * (1 - 1 / 2 ^ 52) \<le> int_mul_float n c"
proof -
  define f where "f = float_of_int n"
  have n: "(0::rat) \<le> of_int n" using assms(1) by simp
  have f0: "0 \<le> f" unfolding f_def float_of_int_def using n by (rule fl_nonneg)
  have f1: "of_int n * (1 - 1 / 2 ^ 53) \<le> f"
    unfolding f_def float_of_int_def using n by (rule fl_lower)
  have x0: "0 \<le> f * c" using f0 assms(2) by simp
  have "of_int n * c * (1 - 1 / 2 ^ 52) \<le> of_int n * c * ((1 - 1 / 2 ^ 53) * (1 - 1 / 2 ^ 53))"
    using n assms(2) by (intro mult_left_mono) simp_all
  also have "\<dots> = of_int n * (1 - 1 / 2 ^ 53) * c * (1 - 1 / 2 ^ 53)" by simp
  also have "of_int n * (1 - 1 / 2 ^ 53) * c \<le> f * c"
    using f1 assms(2) by (rule mult_right_mono)
  then have "of_int n * (1 - 1 / 2 ^ 53) * c * (1 - 1 / 2 ^ 53) \<le> f * c * (1 - 1 / 2 ^ 53)"
    by (rule mult_right_mono) simp
  also have "\<dots> \<le> fl (f * c)" using x0 by (rule fl_lower)
  finally show ?thesis by (simp add: int_mul_float_def f_def)
qed

lemma py_int_mono:
  assumes "x \<le> y" shows "py_int x \<le> py_int y"
proof -
  consider "0 \<le> x" | "y < 0" | "x < 0" "0 \<le> y" by linarith
  then show ?thesis
  proof cases
    case 1 then show ?thesis using assms by (simp add: py_int_def floor_mono)
  next
    case 2 then show ?thesis using assms by (simp add: py_int_def ceiling_mono)
  next
    case 3
    have "\<lceil>x\<rceil> \<le> 0" using 3(1) by (simp add: ceiling_le_iff)
    moreover have "0 \<le> \<lfloor>y\<rfloor>" using 3(2) by simp
    ultimately have "\<lceil>x\<rceil> \<le> \<lfloor>y\<rfloor>" by linarith
    then show ?thesis using 3 by (simp add: py_int_def)
  qed
qed

lemma py_int_ge0: "0 \<le> x \<Longrightarrow> 0 \<le> py_int x"
  by (simp add: py_int_def)


lemma py_int_gt: "0 \<le> x \<Longrightarrow> x < of_int (py_int x) + 1"
  by (simp add: py_int_def) linarith


lemma py_int_fl_ge:
  assumes "0 \<le> k" "k < 2 ^ 53" "of_int k \<le> x"
  shows "k \<le> py_int (fl x)"
proof -
  have "fl (of_int k) \<le> fl x" using assms(3) by (rule fl_mono)
  moreover have "fl (of_int k) = of_int k" using assms(1,2) by (intro fl_of_int) simp
  ultimately have lo: "of_int k \<le> fl x" by simp
  have "(0::rat) \<le> of_int k" using assms(1) by simp
  then have "0 \<le> fl x" using lo by linarith
  then have "py_int (fl x) = \<lfloor>fl x\<rfloor>" by (rule py_int_nonneg)
  moreover have "k \<le> \<lfloor>fl x\<rfloor>" using lo by (simp add: le_floor_iff)
  ultimately show ?thesis by simp
qed

lemma py_int_fl_le:
  assumes "0 \<le> k" "k < 2 ^ 45" "0 \<le> x" "x \<le> of_int k + 127 / 128"
  shows "py_int (fl x) \<le> k"
proof -
  have "\<bar>128 * k + 127\<bar> < 2 ^ 53" using assms(1,2) by simp
  from fl_repr [OF this, of "- 7"]
  have "fl (of_int k + 127 / 128) = of_int k + 127 / 128"
    by (simp add: power_int_minus field_simps)
  moreover have "fl x \<le> fl (of_int k + 127 / 128)" using assms(4) by (rule fl_mono)
  ultimately have hi: "fl x \<le> of_int k + 127 / 128" by simp
  have "0 \<le> fl x" using assms(3) by (rule fl_nonneg)
  then have "py_int (fl x) = \<lfloor>fl x\<rfloor>" by (rule py_int_nonneg)
  moreover have "fl x < of_int k + 1" using hi by linarith
  then have "\<lfloor>fl x\<rfloor> \<le> k" by (simp add: floor_le_iff)
  ultimately show ?thesis by simp
qed

lemma fl_near_int:
  assumes k: "0 < k" "k < 2 ^ 52"
    and x: "of_int k * (1 - 1 / 2 ^ 54) < x" "x \<le> of_int k"
  shows "fl x = of_int k"
proof -
  define j where "j = flog2 (of_int k)"
  have kpos: "(0::rat) < of_int k" using k by simp
  note b = flog2_bounds [OF kpos, folded j_def]
  have "(1::rat) \<le> of_int k" using k(1) by simp
  then have "(2::rat) powi 0 < 2 powi (j + 1)" using b(2) by simp
  then have "0 < j + 1" using power_int_increasing [of "j + 1" 0 "2::rat"] by force
  then have j0: "0 \<le> j" by simp
  have "(of_int k :: rat) < of_int (2 ^ 52)" using k(2) by (simp only: of_int_less_iff)
  then have "(2::rat) powi j < 2 powi 52" using b(1) by simp
  then have j52: "j < 52" using power_int_increasing [of 52 j "2::rat"] by force
  define p :: rat where "p = 2 powi (j - 52)"
  have p: "0 < p" by (simp add: p_def)
  have pj: "(2::rat) powi j = 2 ^ 52 * p"
    unfolding p_def using power_int_add [of "2::rat" 52 "j - 52"] by simp
  have pj1: "(2::rat) powi (j + 1) = 2 ^ 53 * p"
    unfolding p_def using power_int_add [of "2::rat" 53 "j - 52"] by (simp add: add.commute)
  have lo: "2 ^ 52 * p \<le> of_int k" using b(1) by (simp add: pj)
  have hi: "of_int k < 2 ^ 53 * p" using b(2) by (simp add: pj1)
  have xpos: "0 < x"
  proof -
    have "0 \<le> of_int k * (1 - 1 / 2 ^ 54 :: rat)" using kpos by simp
    then show ?thesis using x(1) by linarith
  qed
  have d: "of_int k - x < of_int k / 2 ^ 54" using x(1) by (simp add: algebra_simps)
  show ?thesis
  proof (cases "2 ^ 52 * p \<le> x")
    case True
    define q :: int where "q = 2 ^ nat (52 - j)"
    have qp: "of_int q * p = 1"
      using j52 by (simp add: q_def p_def power_int_def field_simps)
    have xp: "x / p = x * of_int q" using qp p by (simp add: field_simps)
    have kp: "of_int k / p = of_int (k * q)" using qp p by (simp add: field_simps)
    have "x < 2 powi (j + 1)" using x(2) hi by (simp add: pj1)
    moreover have "2 powi j \<le> x" using True by (simp add: pj)
    ultimately have fx: "fl x = of_int (rne (x / p)) * p"
      unfolding p_def using xpos by (intro fl_at) simp_all
    have "of_int k / p < 2 ^ 53" using hi p by (simp add: field_simps)
    then have "(of_int k / 2 ^ 54) / p < 1 / 2" by (simp add: field_simps)
    moreover have "(of_int k - x) / p < (of_int k / 2 ^ 54) / p"
      using d p by (rule divide_strict_right_mono)
    moreover have "0 \<le> (of_int k - x) / p" using x(2) p by simp
    ultimately have "\<bar>x / p - of_int k / p\<bar> < 1 / 2"
      by (simp add: diff_divide_distrib abs_if)
    then have "rne (x / p) = k * q" unfolding kp by (rule rne_near)
    then have "fl x = of_int (k * q) * p" using fx by simp
    also have "\<dots> = of_int k * (of_int q * p)" by simp
    finally show ?thesis by (simp add: qp)
  next
    case False
    then have xl: "x < 2 ^ 52 * p" by simp
    define e where "e = nat j"
    have pe: "2 ^ 52 * p = of_int (2 ^ e)"
      using j0 pj by (simp add: e_def power_int_def)
    have "(of_int k :: rat) / 2 ^ 54 < 1"
      using \<open>(of_int k :: rat) < of_int (2 ^ 52)\<close> by simp
    then have "of_int k - of_int (2 ^ e) < (1::rat)" using d xl pe by linarith
    then have "(of_int (k - 2 ^ e) :: rat) < of_int 1" by simp
    then have "k - 2 ^ e < 1" by (simp only: of_int_less_iff)
    moreover have "(of_int (2 ^ e) :: rat) \<le> of_int k" using lo pe by simp
    then have "2 ^ e \<le> k" by (simp only: of_int_le_iff)
    ultimately have ke: "k = 2 ^ e" by simp
    then have kp: "of_int k = 2 ^ 52 * p" using pe by simp
    have pj': "(2::rat) powi (j - 1) = 2 ^ 51 * p"
      unfolding p_def using power_int_add [of "2::rat" 51 "j - 52"] by simp
    have ph: "(2::rat) powi (j - 1 - 52) = p / 2"
      unfolding p_def using power_int_add [of "2::rat" "- 1" "j - 52"]
      by (simp add: power_int_minus algebra_simps)
    have "of_int k * (1 - 1 / 2 ^ 54) = 2 ^ 52 * p - p / 4" unfolding kp by simp
    then have x2: "2 ^ 52 * p - p / 4 < x" using x(1) by simp
    have "2 ^ 51 * p \<le> 2 ^ 52 * p - p / 4" using p by simp
    then have "2 powi (j - 1) \<le> x" using x2 by (simp add: pj')
    moreover have "x < 2 powi (j - 1 + 1)" using xl by (simp add: pj)
    ultimately have fx: "fl x = of_int (rne (x / (p / 2))) * (p / 2)"
      unfolding ph [symmetric] using xpos by (intro fl_at) simp_all
    have "(2 ^ 52 * p - p / 4) / (p / 2) < x / (p / 2)"
      using x2 p by (intro divide_strict_right_mono) simp_all
    moreover have "(2 ^ 52 * p - p / 4) / (p / 2) = 2 ^ 53 - 1 / 2" using p by (simp add: field_simps)
    moreover have "x / (p / 2) < (2 ^ 52 * p) / (p / 2)"
      using xl p by (intro divide_strict_right_mono) simp_all
    moreover have "(2 ^ 52 * p) / (p / 2) = 2 ^ 53" using p by (simp add: field_simps)
    ultimately have "\<bar>x / (p / 2) - of_int (2 ^ 53)\<bar> < 1 / 2" by simp
    then have "rne (x / (p / 2)) = 2 ^ 53" by (rule rne_near)
    then have "fl x = 2 ^ 53 * (p / 2)" using fx by simp
    then show ?thesis unfolding kp by simp
  qed
qed

lemma py_int_scaled_below:
  fixes a b n :: int and C :: rat
  assumes n: "0 \<le> n" "n < 2 ^ 40"
    and b: "0 < b" "b \<le> 100" and a: "0 \<le> a" "a \<le> b"
    and C: "of_int a / of_int b - 1 / 2 ^ 52 \<le> C" "C \<le> of_int a / of_int b" "0 \<le> C"
  shows "py_int (int_mul_float n C) \<le> (a * n) div b"
    and "(a * n) div b - 1 \<le> py_int (int_mul_float n C)"
    and "(a * n) mod b \<noteq> 0 \<Longrightarrow> py_int (int_mul_float n C) = (a * n) div b"
proof -
  define k where "k = (a * n) div b"
  define r where "r = (a * n) mod b"
  define x where "x = of_int n * C"
  have r: "0 \<le> r" "r \<le> b - 1" using b by (simp_all add: r_def)
  have e: "(of_int (a * n) :: rat) / of_int b = of_int k + of_int r / of_int b"
    unfolding k_def r_def using b(1) by (rule div_mod_rat)
  have bq: "(0::rat) < of_int b" "(of_int b :: rat) \<le> 100" using b by simp_all
  have nq: "(0::rat) \<le> of_int n" "(of_int n :: rat) \<le> 2 ^ 40" using n by simp_all
  have rq: "(0::rat) \<le> of_int r / of_int b" using r b by simp
  have "(of_int r :: rat) \<le> of_int (b - 1)" using r(2) by (simp only: of_int_le_iff)
  then have "(of_int r :: rat) \<le> of_int b - 1" by simp
  then have "(of_int r :: rat) / of_int b \<le> 1 - 1 / of_int b"
    using bq by (simp add: field_simps)
  moreover have b100: "1 / 100 \<le> 1 / (of_int b :: rat)" using bq by (simp add: field_simps)
  ultimately have rq2: "(of_int r :: rat) / of_int b \<le> 99 / 100" by linarith
  have k0: "0 \<le> k" using n a b by (simp add: k_def pos_imp_zdiv_nonneg_iff)
  have "a * n \<le> b * n" using a n by (simp add: mult_right_mono)
  then have "(a * n) div b \<le> (b * n) div b" using b(1) by (rule zdiv_mono1)
  also have "(b * n) div b = n" using b(1) by simp
  finally have "k \<le> n" by (simp add: k_def)
  then have k1: "k < 2 ^ 45" using n by simp
  have x0: "0 \<le> x" unfolding x_def using nq(1) C(3) by simp
  have x1: "of_int n * (of_int a / of_int b - 1 / 2 ^ 52) \<le> x"
    unfolding x_def using C(1) nq(1) by (rule mult_left_mono)
  have x2: "x \<le> of_int n * (of_int a / of_int b)"
    unfolding x_def using C(2) nq(1) by (rule mult_left_mono)
  have x3: "of_int n * (of_int a / of_int b) = (of_int (a * n) :: rat) / of_int b" by simp
  have x4: "(of_int n :: rat) * (1 / 2 ^ 52) \<le> 2 ^ 40 * (1 / 2 ^ 52)"
    using nq(2) by (intro mult_right_mono) simp_all
  have x5: "of_int n * (of_int a / of_int b - 1 / 2 ^ 52)
      = of_int n * (of_int a / of_int b) - (of_int n :: rat) * (1 / 2 ^ 52)"
    by (simp add: algebra_simps)
  have x7: "of_int n * (of_int a / of_int b) = (of_int k :: rat) + of_int r / of_int b"
    by (simp only: x3 e)
  have hi: "x \<le> of_int k + 127 / 128" using x2 [unfolded x7] rq2 by linarith
  have x6: "(of_int n :: rat) * (1 / 2 ^ 52) \<le> 1 / 2 ^ 12" using x4 by simp
  have lo: "of_int k + of_int r / of_int b - 1 / 2 ^ 12 \<le> x"
    using x1 [unfolded x5 x7] x6 by linarith
  have "\<bar>n\<bar> < 2 ^ 53" using n by simp
  then have v: "int_mul_float n C = fl x" unfolding x_def by (rule int_mul_float_eq)
  show "py_int (int_mul_float n C) \<le> (a * n) div b"
    unfolding v k_def [symmetric] using k0 k1 x0 hi by (rule py_int_fl_le)
  show "(a * n) div b - 1 \<le> py_int (int_mul_float n C)"
  proof (cases "k = 0")
    case True
    have "0 \<le> py_int (fl x)" using x0 by (intro py_int_ge0 fl_nonneg)
    then show ?thesis unfolding v k_def [symmetric] using True by simp
  next
    case False
    then have "0 \<le> k - 1" "k - 1 < 2 ^ 53" using k0 k1 by simp_all
    moreover have "of_int (k - 1) \<le> x" using lo rq by simp
    ultimately show ?thesis unfolding v k_def [symmetric] by (rule py_int_fl_ge)
  qed
  show "py_int (int_mul_float n C) = (a * n) div b" if "(a * n) mod b \<noteq> 0"
  proof -
    from that have "1 \<le> r" using r by (simp add: r_def)
    then have "(of_int 1 :: rat) \<le> of_int r" by (simp only: of_int_le_iff)
    then have "1 / of_int b \<le> (of_int r :: rat) / of_int b"
      using bq by (simp add: divide_right_mono)
    then have "1 / 100 \<le> (of_int r :: rat) / of_int b" using b100 by linarith
    then have "of_int k \<le> x" using lo by simp
    then show ?thesis unfolding v k_def [symmetric]
      using py_int_fl_between [OF k0 k1 _ hi] by simp
  qed
qed

lemma py_int_015:
  assumes "0 \<le> n" "n < 2 ^ 40"
  shows "py_int (int_mul_float n (float_lit (15 / 100))) = (3 * n) div 20"
proof (cases "(3 * n) mod 20 = 0")
  case False
  then show ?thesis
    using assms unfolding lit_015 by (intro py_int_scaled_below(3)) simp_all
next
  case True
  define k where "k = (3 * n) div 20"
  have "3 * n = 20 * ((3 * n) div 20) + (3 * n) mod 20" by simp
  then have nk: "3 * n = 20 * k" unfolding True k_def by simp
  have k0: "0 \<le> k" using assms by (simp add: k_def pos_imp_zdiv_nonneg_iff)
  have kn: "k \<le> n" using nk assms(1) by simp
  have "(of_int (3 * n) :: rat) = of_int (20 * k)" using nk by (simp only:)
  then have nq: "(of_int n :: rat) = 20 * of_int k / 3" by simp
  have "\<bar>n\<bar> < 2 ^ 53" using assms by simp
  then have v: "int_mul_float n (float_lit (15 / 100)) = fl (of_int n * (5404319552844595 / 2 ^ 55))"
    unfolding lit_015 by (rule int_mul_float_eq)
  show ?thesis
  proof (cases "k = 0")
    case True
    then have "n = 0" using nk by simp
    then have "fl (of_int n * (5404319552844595 / 2 ^ 55)) = 0" by (simp add: fl_0)
    then show ?thesis unfolding v using \<open>n = 0\<close> by (simp add: py_int_def)
  next
    case False
    then have kp: "0 < k" using k0 by simp
    have k52: "k < 2 ^ 52" using kn assms(2) by simp
    have kq: "(0::rat) < of_int k" using kp by simp
    have "of_int k * (1 - 1 / 2 ^ 54) < of_int n * (5404319552844595 / 2 ^ 55 :: rat)"
      unfolding nq using kq by (simp add: field_simps)
    moreover have "of_int n * (5404319552844595 / 2 ^ 55 :: rat) \<le> of_int k"
      unfolding nq using kq by (simp add: field_simps)
    ultimately have "fl (of_int n * (5404319552844595 / 2 ^ 55)) = of_int k"
      using kp k52 by (intro fl_near_int)
    then show ?thesis unfolding v using k0 by (simp add: py_int_def k_def)
  qed
qed

lemma py_int_07:
  assumes "0 \<le> n" "n < 2 ^ 40"
  shows "py_int (int_mul_float n (float_lit (7 / 10))) \<le> (7 * n) div 10"
    and "(7 * n) div 10 - 1 \<le> py_int (int_mul_float n (float_lit (7 / 10)))"
    and "(7 * n) mod 10 \<noteq> 0 \<Longrightarrow> py_int (int_mul_float n (float_lit (7 / 10))) = (7 * n) div 10"
proof -
  show "py_int (int_mul_float n (float_lit (7 / 10))) \<le> (7 * n) div 10"
    using assms unfolding lit_07 by (intro py_int_scaled_below(1)) simp_all
  show "(7 * n) div 10 - 1 \<le> py_int (int_mul_float n (float_lit (7 / 10)))"
    using assms unfolding lit_07 by (intro py_int_scaled_below(2)) simp_all
  show "py_int (int_mul_float n (float_lit (7 / 10))) = (7 * n) div 10" if "(7 * n) mod 10 \<noteq> 0"
    using assms that unfolding lit_07 by (intro py_int_scaled_below(3)) simp_all
qed

section \<open>The drawing calls\<close>




text \<open>The drawing calls of the script never fail on a non-negative size.\<close>

lemma and_then_Inr [simp]: "and_then (Inr v) f = f v"
  by (simp add: and_then_def)

lemma and_then_Inl [simp]: "and_then (Inl e) f = Inl e"
  by (simp add: and_then_def)

lemma paint_size [simp]: "width (paint img cov c) = width img" "height (paint img cov c) = height img"
  by (simp_all add: paint_def)

lemma in_image_paint [simp]: "in_image (paint img cov c) p = in_image img p"
  by (simp add: in_image_def)















declare digits.simps [simp del]


lemma str_int_512: "str_int 512 = ''512''"
  by code_simp



section \<open>The import guard\<close>

text \<open>
  C6.  When the imaging library cannot be loaded (\<open>pil_available = False\<close> stands for the
  import raising \<^verbatim>\<open>ImportError\<close>), the script prints the line
  \<^verbatim>\<open>PIL/Pillow not available.\<close> and then the fallback instruction
  \<^verbatim>\<open>Please open generate-pwa-icons.html in your browser to generate icons manually.\<close>,
  prints nothing else, leaves every file of the working directory as it was (so it
  creates no output file), and exits with status 0.
\<close>

theorem import_guard_fallback:
  "script False enc w =
     (w\<lparr>stdout := stdout w @
          [''PIL/Pillow not available.'',
           ''Please open generate-pwa-icons.html in your browser to generate icons manually.'']\<rparr>,
      0)
   \<and> files (fst (script False enc w)) = files w
   \<and> write_fault (fst (script False enc w)) = write_fault w
   \<and> snd (script False enc w) = 0"
  by (simp add: script_def print_def fallback_advice_def)

section \<open>Dimensions of the icon\<close>







section \<open>Failures of the generation\<close>



section \<open>Repeated runs\<close>



end
